theory Spec2Isabelle
  imports Main "HOL-Library.Word"
begin

unbundle bit_operations_syntax

section \<open>The ISAAC generator of rand-isaac.c\<close>

text \<open>
  The development follows \<^verbatim>\<open>src/rand-isaac.c\<close>. A \<^verbatim>\<open>uint32_t\<close> is a
  \<^typ>\<open>32 word\<close>: addition and negation wrap around, \<^term>\<open>push_bit\<close> is \<^verbatim>\<open><<\<close> and
  \<^term>\<open>drop_bit\<close> is the logical \<^verbatim>\<open>>>\<close>. An array is a list; the C type fixes its
  length, which theorems that need it take as a hypothesis.
\<close>

subsection \<open>Constants and state\<close>

definition ISAAC_LOG :: nat where
  "ISAAC_LOG = 8"

definition ISAAC_WORDS :: nat where
  "ISAAC_WORDS = 2 ^ ISAAC_LOG"

text \<open>\<^verbatim>\<open>sizeof (uint32_t)\<close>.\<close>

definition sizeof_uint32 :: nat where
  "sizeof_uint32 = 4"

definition ISAAC_BYTES :: nat where
  "ISAAC_BYTES = ISAAC_WORDS * sizeof_uint32"

record isaac_state =
  mm :: "32 word list"
  iv :: "32 word list"
  a :: "32 word"
  b :: "32 word"
  c :: "32 word"

subsection \<open>The index operation\<close>

text \<open>
  \<^verbatim>\<open>ind (mm, x)\<close> adds \<^verbatim>\<open>(x) & (ISAAC_WORDS - 1) * sizeof (uint32_t)\<close> to the address of
  \<^verbatim>\<open>mm\<close> taken as a byte pointer and reads a word there. In C the product binds tighter
  than \<^verbatim>\<open>&\<close>, so the byte offset is \<^verbatim>\<open>x & 1020\<close>, a multiple of the word size, and the
  word read is the one at that offset divided by the word size.
\<close>

definition ind_offset :: "32 word \<Rightarrow> nat" where
  "ind_offset x = unat (x AND of_nat ((ISAAC_WORDS - 1) * sizeof_uint32))"

definition ind :: "32 word list \<Rightarrow> 32 word \<Rightarrow> 32 word" where
  "ind m x = m ! (ind_offset x div sizeof_uint32)"

subsection \<open>The central step and the refill\<close>

text \<open>
  The variables \<^verbatim>\<open>isaac_refill\<close> works on: the caches of \<^verbatim>\<open>a\<close> and \<^verbatim>\<open>b\<close>, the array
  \<^verbatim>\<open>s->mm\<close> and the output array \<^verbatim>\<open>r\<close>.
\<close>

record refill_vars =
  a_cache :: "32 word"
  b_cache :: "32 word"
  s_mm :: "32 word list"
  r_out :: "32 word list"

text \<open>
  \<^verbatim>\<open>isaac_step (mix, a, b, mm, m, off, r)\<close>. The macro's \<^verbatim>\<open>mix\<close> is an expression in the
  old \<^verbatim>\<open>a\<close>, here a function of it. The pointers \<^verbatim>\<open>m\<close> and \<^verbatim>\<open>r\<close> start at element 0 of
  their arrays and advance together, so one index \<open>m\<close> stands for both. The comma
  operator orders the four assignments: the second lookup reads the array after
  \<^verbatim>\<open>*(m)\<close> has been written.
\<close>

definition isaac_step ::
  "(32 word \<Rightarrow> 32 word) \<Rightarrow> int \<Rightarrow> nat \<Rightarrow> refill_vars \<Rightarrow> refill_vars" where
  "isaac_step mix_a off m f =
     (let a1 = (a_cache f XOR mix_a (a_cache f)) + s_mm f ! nat (int m + off);
          x = s_mm f ! m;
          y = ind (s_mm f) x + a1 + b_cache f;
          mm1 = (s_mm f)[m := y];
          b1 = ind mm1 (drop_bit ISAAC_LOG y) + x
      in \<lparr>a_cache = a1, b_cache = b1, s_mm = mm1, r_out = (r_out f)[m := b1]\<rparr>)"

text \<open>The body of either \<^verbatim>\<open>do\<close> loop: four steps at \<open>m\<close>, \<open>m + 1\<close>, \<open>m + 2\<close>, \<open>m + 3\<close>.\<close>

definition refill_body :: "int \<Rightarrow> nat \<Rightarrow> refill_vars \<Rightarrow> refill_vars" where
  "refill_body off m f =
     (let f1 = isaac_step (push_bit 13) off m f;
          f2 = isaac_step (drop_bit 6) off (m + 1) f1;
          f3 = isaac_step (push_bit 2) off (m + 2) f2
      in isaac_step (drop_bit 16) off (m + 3) f3)"

text \<open>
  \<^verbatim>\<open>do { ... } while ((m += 4) < s->mm + bound)\<close>: the body runs before the test. The
  result carries the final \<open>m\<close>, which the second loop starts from.
\<close>

function refill_loop :: "int \<Rightarrow> nat \<Rightarrow> nat \<Rightarrow> refill_vars \<Rightarrow> nat \<times> refill_vars" where
  "refill_loop off bound m f =
     (let f' = refill_body off m f; m' = m + 4
      in if m' < bound then refill_loop off bound m' f' else (m', f'))"
  by pat_completeness auto
termination
  by (relation "measure (\<lambda>(off, bound, m, f). bound - m)") auto

declare refill_loop.simps [simp del]

definition isaac_refill :: "isaac_state \<Rightarrow> 32 word list \<Rightarrow> isaac_state \<times> 32 word list" where
  "isaac_refill st out =
     (let c1 = c st + 1;
          f0 = \<lparr>a_cache = a st, b_cache = b st + c1, s_mm = mm st, r_out = out\<rparr>;
          (m1, f1) = refill_loop (int ISAAC_WORDS div 2) (ISAAC_WORDS div 2) 0 f0;
          (m2, f2) = refill_loop (- int ISAAC_WORDS div 2) ISAAC_WORDS m1 f1
      in (st\<lparr>mm := s_mm f2, a := a_cache f2, b := b_cache f2, c := c1\<rparr>, r_out f2))"

subsection \<open>The seed-scrambling step\<close>

type_synonym mix_regs =
  "32 word \<times> 32 word \<times> 32 word \<times> 32 word \<times> 32 word \<times> 32 word \<times> 32 word \<times> 32 word"

text \<open>The macro \<^verbatim>\<open>mix (a, b, c, d, e, f, g, h)\<close>, one assignment after the other.\<close>

definition mix :: "mix_regs \<Rightarrow> mix_regs" where
  "mix = (\<lambda>(a, b, c, d, e, f, g, h).
     let a = a XOR push_bit 11 b; d = d + a; b = b + c;
         b = b XOR drop_bit 2 c; e = e + b; c = c + d;
         c = c XOR push_bit 8 d; f = f + c; d = d + e;
         d = d XOR drop_bit 16 e; g = g + d; e = e + f;
         e = e XOR push_bit 10 f; h = h + e; f = f + g;
         f = f XOR drop_bit 4 g; a = a + f; g = g + h;
         g = g XOR push_bit 8 h; b = b + g; h = h + a;
         h = h XOR drop_bit 9 a; c = c + h; a = a + b
     in (a, b, c, d, e, f, g, h))"

text \<open>
  \<^verbatim>\<open>isaac_mix (s, seed)\<close>. The pointer \<^verbatim>\<open>seed\<close> is a view of the current state: every
  live call passes \<^verbatim>\<open>s->mm\<close> itself, the view \<^term>\<open>mm\<close>, and then reads what earlier
  rounds of the loop have written; a separate array \<open>xs\<close> is the view \<open>\<lambda>_. xs\<close>. Within
  one round the eight reads come before the eight writes.
\<close>

definition isaac_mix_body ::
  "(isaac_state \<Rightarrow> 32 word list) \<Rightarrow> nat \<Rightarrow> mix_regs \<times> isaac_state \<Rightarrow> mix_regs \<times> isaac_state" where
  "isaac_mix_body seed i = (\<lambda>((a, b, c, d, e, f, g, h), st).
     let sd = seed st;
         a = a + sd ! i;
         b = b + sd ! (i + 1);
         c = c + sd ! (i + 2);
         d = d + sd ! (i + 3);
         e = e + sd ! (i + 4);
         f = f + sd ! (i + 5);
         g = g + sd ! (i + 6);
         h = h + sd ! (i + 7);
         (a, b, c, d, e, f, g, h) = mix (a, b, c, d, e, f, g, h)
     in ((a, b, c, d, e, f, g, h),
         st\<lparr>mm := (mm st)[i := a, i + 1 := b, i + 2 := c, i + 3 := d,
                           i + 4 := e, i + 5 := f, i + 6 := g, i + 7 := h]\<rparr>))"

function isaac_mix_loop ::
  "(isaac_state \<Rightarrow> 32 word list) \<Rightarrow> nat \<Rightarrow> mix_regs \<times> isaac_state \<Rightarrow> mix_regs \<times> isaac_state" where
  "isaac_mix_loop seed i x =
     (if i < ISAAC_WORDS then isaac_mix_loop seed (i + 8) (isaac_mix_body seed i x) else x)"
  by pat_completeness auto
termination
  by (relation "measure (\<lambda>(seed, i, x). ISAAC_WORDS - i)") auto

declare isaac_mix_loop.simps [simp del]

definition isaac_mix :: "(isaac_state \<Rightarrow> 32 word list) \<Rightarrow> isaac_state \<Rightarrow> isaac_state" where
  "isaac_mix seed st =
     (let regs = (iv st ! 0, iv st ! 1, iv st ! 2, iv st ! 3,
                  iv st ! 4, iv st ! 5, iv st ! 6, iv st ! 7);
          ((a, b, c, d, e, f, g, h), st1) = isaac_mix_loop seed 0 (regs, st)
      in st1\<lparr>iv := (iv st1)[0 := a, 1 := b, 2 := c, 3 := d, 4 := e, 5 := f, 6 := g, 7 := h]\<rparr>)"

subsection \<open>Seeding\<close>

definition iv_init :: "32 word list" where
  "iv_init = [0x1367df5a, 0x95d90059, 0xc3163e4b, 0x0f421ad8,
              0xd92a4a78, 0xa51a3c49, 0xc4efea1b, 0x30609119]"

text \<open>
  \<^verbatim>\<open>isaac_seed_start\<close>: the loop copying the eight words, then \<^verbatim>\<open>memset\<close> over the
  \<^verbatim>\<open>sizeof s->mm\<close> bytes of \<^verbatim>\<open>s->mm\<close>, that is over its \<^term>\<open>ISAAC_WORDS\<close> words, then the
  three scalars.
\<close>

definition isaac_seed_start :: "isaac_state \<Rightarrow> isaac_state" where
  "isaac_seed_start st =
     (let st1 = st\<lparr>iv := fold (\<lambda>i v. v[i := iv_init ! i]) [0..<8] (iv st)\<rparr>;
          st2 = st1\<lparr>mm := replicate ISAAC_WORDS 0\<rparr>
      in st2\<lparr>c := 0, b := 0, a := 0\<rparr>)"

text \<open>
  \<^verbatim>\<open>isaac_seed_data\<close> addresses \<^verbatim>\<open>s->mm\<close> byte by byte. Byte \<open>p\<close> of the array lies in word
  \<open>p div 4\<close>; where in that word depends on the byte order of the machine, a parameter.
\<close>

datatype endian = LittleEndian | BigEndian

definition byte_lane :: "endian \<Rightarrow> nat \<Rightarrow> nat" where
  "byte_lane en k =
     (case en of LittleEndian \<Rightarrow> 8 * k | BigEndian \<Rightarrow> 8 * (sizeof_uint32 - 1 - k))"

text \<open>\<^verbatim>\<open>p[i] ^= buf[i]\<close> for one byte, at byte offset \<open>p\<close> of the word array.\<close>

definition xor_byte :: "endian \<Rightarrow> 32 word list \<Rightarrow> nat \<Rightarrow> 8 word \<Rightarrow> 32 word list" where
  "xor_byte en m p v =
     m[p div sizeof_uint32 :=
         m ! (p div sizeof_uint32) XOR push_bit (byte_lane en (p mod sizeof_uint32)) (ucast v)]"

text \<open>\<^verbatim>\<open>for (i = 0; i < n; i++) p[i] ^= buf[i]\<close> over the \<open>n\<close> bytes given as a list.\<close>

fun xor_buf :: "endian \<Rightarrow> 32 word list \<Rightarrow> nat \<Rightarrow> 8 word list \<Rightarrow> 32 word list" where
  "xor_buf en m p [] = m"
| "xor_buf en m p (v # vs) = xor_buf en (xor_byte en m p v) (p + 1) vs"

text \<open>
  The loop \<^verbatim>\<open>while (size > avail)\<close>; the buffer is the list of its \<open>size\<close> bytes, and
  \<^verbatim>\<open>buf += avail; size -= avail\<close> drops the bytes used.
\<close>

function seed_blocks ::
  "endian \<Rightarrow> nat \<Rightarrow> isaac_state \<Rightarrow> 8 word list \<Rightarrow> isaac_state \<times> 8 word list" where
  "seed_blocks en avail st buf =
     (if length buf > avail
      then (let st1 = st\<lparr>mm := xor_buf en (mm st) (unat (c st)) (take avail buf)\<rparr>;
                st2 = isaac_mix mm st1
            in seed_blocks en ISAAC_BYTES (st2\<lparr>c := 0\<rparr>) (drop avail buf))
      else (st, buf))"
  by pat_completeness auto
termination
  by (relation "measure (\<lambda>(en, avail, st, buf). 2 * length buf + (if avail = 0 then 1 else 0))")
    (auto simp: ISAAC_BYTES_def ISAAC_WORDS_def sizeof_uint32_def)

declare seed_blocks.simps [simp del]

text \<open>
  With \<^verbatim>\<open>s->c\<close> beyond the \<^term>\<open>ISAAC_BYTES\<close> bytes of the array the pointer
  \<^verbatim>\<open>(unsigned char *) s->mm + s->c\<close> lies outside it and \<^verbatim>\<open>avail\<close> wraps around: the C
  program has no defined result, the model returns \<^term>\<open>None\<close>. The last assignment is
  \<^verbatim>\<open>s->c = size\<close>, the number of bytes of the final partial block.
\<close>

definition isaac_seed_data :: "endian \<Rightarrow> isaac_state \<Rightarrow> 8 word list \<Rightarrow> isaac_state option" where
  "isaac_seed_data en st buffer =
     (if unat (c st) > ISAAC_BYTES then None
      else (let avail = ISAAC_BYTES - unat (c st);
                (st1, buf) = seed_blocks en avail st buffer;
                st2 = st1\<lparr>mm := xor_buf en (mm st1) (unat (c st1)) buf\<rparr>
            in Some (st2\<lparr>c := of_nat (length buf)\<rparr>)))"


subsection \<open>Single words and the uniform sampler\<close>

text \<open>
  \<^verbatim>\<open>struct irand_state\<close>. The pointer \<^verbatim>\<open>s\<close> to the generator is the generator state
  itself, carried in the record: the stream is the only user of its generator.
  \<^verbatim>\<open>numleft\<close> is an \<^verbatim>\<open>unsigned int\<close>.
\<close>

record irand_state =
  r :: "32 word list"
  numleft :: "32 word"
  s :: isaac_state


text \<open>
  \<^verbatim>\<open>irand32\<close>. Reading \<^verbatim>\<open>r->r[--r->numleft]\<close> at an index outside the \<^term>\<open>ISAAC_WORDS\<close>
  words of the array has no defined result in C: \<^term>\<open>None\<close>.
\<close>

definition irand32 :: "irand_state \<Rightarrow> (32 word \<times> irand_state) option" where
  "irand32 ir =
     (let ir1 = (if numleft ir = 0
                 then (let (st, out) = isaac_refill (s ir) (r ir)
                       in ir\<lparr>r := out, s := st, numleft := of_nat ISAAC_WORDS\<rparr>)
                 else ir);
          k = numleft ir1 - 1
      in if unat k < ISAAC_WORDS then Some (r ir1 ! unat k, ir1\<lparr>numleft := k\<rparr>) else None)"

text \<open>
  The loop \<^verbatim>\<open>do x = irand32 (r); while (x < lim)\<close> of \<^verbatim>\<open>irand_mod\<close>. Nothing bounds the
  number of rounds: a run that never leaves the loop is \<^term>\<open>None\<close>.
\<close>

partial_function (option) irand_mod_loop ::
  "32 word \<Rightarrow> irand_state \<Rightarrow> (32 word \<times> irand_state) option" where
  "irand_mod_loop lim ir =
     Option.bind (irand32 ir)
       (\<lambda>(x, ir'). if x < lim then irand_mod_loop lim ir' else Some (x, ir'))"

text \<open>The threshold \<^verbatim>\<open>-n % n\<close> on the incremented \<^verbatim>\<open>n\<close>: unary minus binds first.\<close>

definition irand_lim :: "32 word \<Rightarrow> 32 word" where
  "irand_lim n = (- n) mod n"

definition irand_mod :: "irand_state \<Rightarrow> 32 word \<Rightarrow> (32 word \<times> irand_state) option" where
  "irand_mod ir n0 =
     (let n = n0 + 1
      in if n = 0 then irand32 ir
         else (let lim = irand_lim n
               in Option.bind (irand_mod_loop lim ir) (\<lambda>(x, ir'). Some (x mod n, ir'))))"

subsection \<open>Notions the statements use\<close>

text \<open>
  The mixing pass as the specification words it: eight rounds, one per accumulator
  \<open>p\<^sub>j\<close>, with the shift amounts 11, 2, 8, 16, 10, 4, 8, 9, a left shift for even \<open>j\<close> and
  a right shift for odd \<open>j\<close>. Round \<open>j\<close> is
  \<open>p\<^sub>j ^= shift p\<^sub>j\<^sub>+\<^sub>1; p\<^sub>j\<^sub>+\<^sub>3 += p\<^sub>j; p\<^sub>j\<^sub>+\<^sub>1 += p\<^sub>j\<^sub>+\<^sub>2\<close>, the indices taken modulo 8, so the
  last assignment of the last round is \<open>p\<^sub>0 += p\<^sub>1\<close>.
\<close>

definition mixing_shifts :: "nat list" where
  "mixing_shifts = [11, 2, 8, 16, 10, 4, 8, 9]"

definition MixingPass_round :: "nat \<Rightarrow> 32 word list \<Rightarrow> 32 word list" where
  "MixingPass_round j p =
     (let sh = (if even j then push_bit (mixing_shifts ! j) else drop_bit (mixing_shifts ! j));
          p = p[j := p ! j XOR sh (p ! ((j + 1) mod 8))];
          p = p[(j + 3) mod 8 := p ! ((j + 3) mod 8) + p ! j];
          p = p[(j + 1) mod 8 := p ! ((j + 1) mod 8) + p ! ((j + 2) mod 8)]
      in p)"

definition MixingPass :: "32 word list \<Rightarrow> 32 word list" where
  "MixingPass p = fold MixingPass_round [0..<8] p"

definition regs_list :: "mix_regs \<Rightarrow> 32 word list" where
  "regs_list = (\<lambda>(a, b, c, d, e, f, g, h). [a, b, c, d, e, f, g, h])"



text \<open>
  The words \<^verbatim>\<open>irand_mod (r, n0)\<close> draws again: none when \<^verbatim>\<open>++n\<close> wraps to 0, where the
  result of \<^verbatim>\<open>irand32\<close> is returned as it is, and those below the threshold otherwise.
\<close>

definition irand_rejects :: "32 word \<Rightarrow> 32 word \<Rightarrow> bool" where
  "irand_rejects n0 x = (let n = n0 + 1 in if n = 0 then False else x < irand_lim n)"



text \<open>
  The refill as the specification words it: one central step per word of the array, in
  index order. Step \<open>i\<close> sets \<open>a = (a ^ f(a)) + m[(i + 128) mod 256]\<close>, with \<open>f\<close> from the
  cycle \<open><< 13, >> 6, << 2, >> 16\<close>; takes \<open>x = m[i]\<close>; writes
  \<open>m[i] = y = ind(m, x) + a + b\<close>; and emits \<open>output[i] = b = ind(m, y >> 8) + x\<close>, the
  second lookup on the array that holds \<open>y\<close> at \<open>i\<close>. \<open>refill_upto k\<close> is the first \<open>k\<close>
  steps.
\<close>

definition refill_shift :: "nat \<Rightarrow> 32 word \<Rightarrow> 32 word" where
  "refill_shift i = [push_bit 13, drop_bit 6, push_bit 2, drop_bit 16] ! (i mod 4)"

definition refill_step :: "nat \<Rightarrow> refill_vars \<Rightarrow> refill_vars" where
  "refill_step i g =
     (let a' = (a_cache g XOR refill_shift i (a_cache g)) + s_mm g ! ((i + 128) mod 256);
          x = s_mm g ! i;
          y = ind (s_mm g) x + a' + b_cache g;
          b' = ind ((s_mm g)[i := y]) (drop_bit 8 y) + x
      in \<lparr>a_cache = a', b_cache = b', s_mm = (s_mm g)[i := y], r_out = (r_out g)[i := b']\<rparr>)"

definition refill_upto :: "nat \<Rightarrow> refill_vars \<Rightarrow> refill_vars" where
  "refill_upto k f = fold refill_step [0..<k] f"

text \<open>The variables \<^verbatim>\<open>isaac_refill\<close> starts its loops with.\<close>

definition refill_start :: "isaac_state \<Rightarrow> 32 word list \<Rightarrow> refill_vars" where
  "refill_start st out =
     \<lparr>a_cache = a st, b_cache = b st + (c st + 1), s_mm = mm st, r_out = out\<rparr>"

text \<open>
  Seeding with a sequence of buffers: one call of \<^verbatim>\<open>isaac_seed_data\<close> per buffer, in
  order, each on the state the call before left.
\<close>

fun seed_pieces :: "endian \<Rightarrow> isaac_state \<Rightarrow> 8 word list list \<Rightarrow> isaac_state option" where
  "seed_pieces en st [] = Some st"
| "seed_pieces en st (p # ps) =
     Option.bind (isaac_seed_data en st p) (\<lambda>st'. seed_pieces en st' ps)"

text \<open>Concrete data for the instances below.\<close>

definition zero_state :: isaac_state where
  "zero_state = \<lparr>mm = replicate 256 0, iv = replicate 8 0, a = 0, b = 0, c = 0\<rparr>"

definition ramp :: "32 word list" where
  "ramp = map of_nat [0..<256]"

section \<open>Properties\<close>

subsection \<open>The index operation\<close>

lemma and_1020: "(v :: 32 word) AND 1020 = push_bit 2 (take_bit 8 (drop_bit 2 v))"
proof -
  have h: "(1020 :: 32 word) = push_bit 2 (mask 8)"
    by (simp add: mask_eq_exp_minus_1)
  have e: "\<And>n::nat. 2 \<le> n \<Longrightarrow> Suc (Suc (n - 2)) = n"
    by arith
  show ?thesis
    unfolding h by (rule bit_word_eqI) (auto simp: bit_simps e)
qed

lemma unat_and_1020: "unat ((v :: 32 word) AND 1020) = 4 * (unat (drop_bit 2 v) mod 256)"
proof -
  have "unat (drop_bit 2 v) mod 256 * 4 < 2 ^ 32"
    by (rule less_trans [of _ "256 * 4"]) simp_all
  then show ?thesis
    unfolding and_1020
    by (simp add: unsigned_push_bit_eq unsigned_take_bit_eq take_bit_eq_mod push_bit_eq_mult
        unat_word_ariths unat_mod)
qed

lemma ind_offset_eq: "ind_offset v = 4 * (unat (drop_bit 2 v) mod 256)"
  by (simp add: ind_offset_def ISAAC_WORDS_def ISAAC_LOG_def sizeof_uint32_def unat_and_1020)

text \<open>
  C2, as the code has it. The lookup \<^verbatim>\<open>ind (mm, v)\<close> returns the word of \<^verbatim>\<open>mm\<close> whose index
  is bits 2 to 9 of \<open>v\<close>, that is \<open>mm[(v >> 2) mod 256]\<close>, for every 32-bit \<open>v\<close>: the mask
  \<open>(ISAAC_WORDS - 1) * sizeof (uint32_t) = 1020\<close> selects a byte offset, not a word index.
  Applied to \<open>y >> 8\<close> in the central step, the index is bits 10 to 17 of \<open>y\<close>.
\<close>

theorem ind_selects_bits_2_to_9:
  "ind m v = m ! (unat (drop_bit 2 v) mod 256) \<and>
   ind m (drop_bit ISAAC_LOG y) = m ! (unat (drop_bit 10 y) mod 256)"
  by (simp add: ind_def ind_offset_eq sizeof_uint32_def ISAAC_LOG_def)

text \<open>
  C2 as stated fails: on the array whose word \<open>i\<close> holds \<open>i\<close>, the lookup at \<open>v = 1\<close>
  returns word 0, not the word at the low 8 bits of \<open>v\<close>, word 1.
\<close>

theorem ind_low_bits_counterexample:
  "ind ramp 1 = 0 \<and> ramp ! (unat (1 :: 32 word) mod 256) = 1 \<and>
   ind ramp 1 \<noteq> ramp ! (unat (1 :: 32 word) mod 256)"
  by (simp add: ind_def ind_offset_def ISAAC_WORDS_def ISAAC_LOG_def sizeof_uint32_def ramp_def)

subsection \<open>The mixing pass\<close>

lemma upt_8: "[0..<8] = [0, 1, 2, 3, 4, 5, 6, 7]"
  by (simp add: upt_conv_Cons)

text \<open>
  C8. The macro \<^verbatim>\<open>mix\<close> is a function of its eight accumulators alone and computes what
  the eight rounds \<open>p\<^sub>j ^= shift p\<^sub>j\<^sub>+\<^sub>1; p\<^sub>j\<^sub>+\<^sub>3 += p\<^sub>j; p\<^sub>j\<^sub>+\<^sub>1 += p\<^sub>j\<^sub>+\<^sub>2\<close> compute in the order
  \<open>j = 0, ..., 7\<close>, with the shifts \<open><< 11, >> 2, << 8, >> 16, << 10, >> 4, << 8, >> 9\<close>: it
  starts with \<open>p\<^sub>0 ^= p\<^sub>1 << 11; p\<^sub>3 += p\<^sub>0; p\<^sub>1 += p\<^sub>2; p\<^sub>1 ^= p\<^sub>2 >> 2; p\<^sub>4 += p\<^sub>1\<close> and ends with
  \<open>p\<^sub>0 += p\<^sub>1\<close>.
\<close>

theorem mix_is_MixingPass:
  "regs_list (mix (p0, p1, p2, p3, p4, p5, p6, p7)) = MixingPass [p0, p1, p2, p3, p4, p5, p6, p7]"
  by (simp add: regs_list_def mix_def MixingPass_def upt_8 MixingPass_round_def
      mixing_shifts_def Let_def)

subsection \<open>Seeding: start and finish\<close>

lemma seed_start_iv: "length v = 8 \<Longrightarrow> fold (\<lambda>i v. v[i := iv_init ! i]) [0..<8] v = iv_init"
  by (auto simp: upt_8 iv_init_def length_Suc_conv eval_nat_numeral)

text \<open>
  C6. After \<^verbatim>\<open>isaac_seed_start\<close> every one of the 256 words of \<^verbatim>\<open>mm\<close> is 0, \<^verbatim>\<open>a\<close>, \<^verbatim>\<open>b\<close> and
  \<^verbatim>\<open>c\<close> are 0, and \<^verbatim>\<open>iv\<close> holds the eight constants in their order. The array \<^verbatim>\<open>iv\<close> has
  eight words by its type.
\<close>

theorem isaac_seed_start_state:
  "length (iv st) = 8 \<Longrightarrow>
   isaac_seed_start st =
     \<lparr>mm = replicate 256 0,
      iv = [0x1367df5a, 0x95d90059, 0xc3163e4b, 0x0f421ad8,
            0xd92a4a78, 0xa51a3c49, 0xc4efea1b, 0x30609119],
      a = 0, b = 0, c = 0\<rparr>"
  by (simp add: isaac_seed_start_def seed_start_iv ISAAC_WORDS_def ISAAC_LOG_def)
    (simp add: iv_init_def)

theorem isaac_seed_start_state_witness:
  "length (iv \<lparr>mm = ramp, iv = [1, 2, 3, 4, 5, 6, 7, 8], a = 9, b = 10, c = 11\<rparr>) = 8 \<and>
   isaac_seed_start \<lparr>mm = ramp, iv = [1, 2, 3, 4, 5, 6, 7, 8], a = 9, b = 10, c = 11\<rparr> =
     \<lparr>mm = replicate 256 0,
      iv = [0x1367df5a, 0x95d90059, 0xc3163e4b, 0x0f421ad8,
            0xd92a4a78, 0xa51a3c49, 0xc4efea1b, 0x30609119],
      a = 0, b = 0, c = 0\<rparr>"
  using isaac_seed_start_state
    [of "\<lparr>mm = ramp, iv = [1, 2, 3, 4, 5, 6, 7, 8], a = 9, b = 10, c = 11\<rparr>"]
  by simp












subsection \<open>The rejection threshold\<close>

lemma unat_neg: "(n :: 32 word) \<noteq> 0 \<Longrightarrow> unat (- n) = 2 ^ 32 - unat n"
  using unat_sub_if_size [of 0 n] by (simp add: word_size unat_eq_0)

lemma unat_of_nat32: "k < 2 ^ 32 \<Longrightarrow> unat (of_nat k :: 32 word) = k"
  by (simp add: unat_of_nat)

lemma card_below: "card {x :: 32 word. x < l} = unat l"
proof -
  have inj: "inj_on unat {x :: 32 word. x < l}"
    by (rule inj_onI) (simp add: word_unat_eq_iff)
  have img: "unat ` {x :: 32 word. x < l} = {0..<unat l}"
  proof (intro equalityI subsetI)
    fix k assume "k \<in> unat ` {x :: 32 word. x < l}"
    then show "k \<in> {0..<unat l}"
      by (auto simp: word_less_nat_alt)
  next
    fix k assume "k \<in> {0..<unat l}"
    then have k: "k < unat l"
      by simp
    have "unat l < 2 ^ 32"
      using unsigned_less [of l] by simp
    with k have u: "unat (of_nat k :: 32 word) = k"
      by (simp add: unat_of_nat32)
    with k have "(of_nat k :: 32 word) < l"
      by (simp add: word_less_nat_alt)
    with u show "k \<in> unat ` {x :: 32 word. x < l}"
      by (metis (mono_tags, lifting) image_eqI mem_Collect_eq)
  qed
  show ?thesis
    using card_image [OF inj] img by simp
qed

lemma irand_lim_unat:
  "(n :: 32 word) \<noteq> 0 \<Longrightarrow> unat (irand_lim n) = (2 ^ 32 - unat n) mod unat n"
  by (simp add: irand_lim_def unat_mod unat_neg)

lemma irand_lim_less: "(n :: 32 word) \<noteq> 0 \<Longrightarrow> irand_lim n < n"
  by (simp add: irand_lim_def word_less_nat_alt unat_mod unat_gt_0)

lemma pow2_lim: "k < 32 \<Longrightarrow> irand_lim ((2 :: 32 word) ^ k) = 0"
proof -
  assume k: "k < 32"
  have nz: "(2 :: 32 word) ^ k \<noteq> 0"
    using k by simp
  have "(2::nat) ^ k < 2 ^ 32"
    using k by (rule power_strict_increasing) simp
  then have "unat (of_nat (2 ^ k) :: 32 word) = 2 ^ k"
    by (rule unat_of_nat32)
  then have u: "unat ((2 :: 32 word) ^ k) = 2 ^ k"
    by simp
  have "(2::nat) ^ k dvd 2 ^ 32"
    by (rule le_imp_power_dvd) (use k in simp)
  then have "(2 ^ 32 - 2 ^ k) mod 2 ^ k = (0::nat)"
    by (simp add: dvd_diff_nat)
  then have "unat (irand_lim (2 ^ k)) = 0"
    by (simp add: irand_lim_def unat_mod unat_neg [OF nz] u)
  then show ?thesis
    by (simp add: unat_eq_0)
qed

subsection \<open>Single words\<close>

lemma irand32_Some:
  assumes "unat (numleft ir) \<le> ISAAC_WORDS"
  shows "\<exists>x ir'. irand32 ir = Some (x, ir') \<and>
           numleft ir' = (if numleft ir = 0 then of_nat ISAAC_WORDS else numleft ir) - 1 \<and>
           unat (numleft ir') < ISAAC_WORDS \<and>
           x = r ir' ! unat (numleft ir') \<and>
           (if numleft ir = 0 then (s ir', r ir') = isaac_refill (s ir) (r ir)
            else s ir' = s ir \<and> r ir' = r ir)"
proof (cases "numleft ir = 0")
  case True
  then show ?thesis
    by (simp add: irand32_def Let_def ISAAC_WORDS_def ISAAC_LOG_def split: prod.splits)
next
  case False
  then have "unat (numleft ir - 1) = unat (numleft ir) - 1"
    by (rule unat_minus_one)
  moreover have "0 < unat (numleft ir)"
    using False by (simp add: unat_gt_0)
  ultimately have "unat (numleft ir - 1) < ISAAC_WORDS"
    using assms by simp
  with False show ?thesis
    by (simp add: irand32_def Let_def)
qed




subsection \<open>The uniform sampler\<close>



lemma irand_mod_loop_accept:
  "irand32 ir = Some (x, ir') \<Longrightarrow> \<not> x < lim \<Longrightarrow> irand_mod_loop lim ir = Some (x, ir')"
  by (subst irand_mod_loop.simps) simp

lemma irand_mod_loop_reject:
  "irand32 ir = Some (x, ir') \<Longrightarrow> x < lim \<Longrightarrow> irand_mod_loop lim ir = irand_mod_loop lim ir'"
  by (subst irand_mod_loop.simps) simp

lemma irand_mod_loop_zero: "irand_mod_loop 0 ir = irand32 ir"
  by (subst irand_mod_loop.simps) (cases "irand32 ir", auto)







text \<open>
  C10. When \<open>n + 1\<close> is a power of two \<open>2\<^sup>k\<close> with \<open>k < 32\<close>, the threshold is 0 and
  \<^verbatim>\<open>irand_mod\<close> is one call of \<^verbatim>\<open>irand32\<close> with the word reduced modulo \<open>2\<^sup>k\<close>: no draw is
  rejected and one word is consumed. On a stream with \<^verbatim>\<open>numleft\<close> at most 256,
  \<^verbatim>\<open>irand_mod\<close> with \<open>n = 0\<close> returns 0 and the stream that one call of \<^verbatim>\<open>irand32\<close> leaves.
\<close>

theorem irand_mod_power_of_two:
  "(k < 32 \<longrightarrow>
      irand_lim (2 ^ k) = 0 \<and>
      irand_mod ir (2 ^ k - 1) = map_option (\<lambda>(x, ir'). (x mod 2 ^ k, ir')) (irand32 ir)) \<and>
   (unat (numleft ir) \<le> ISAAC_WORDS \<longrightarrow>
      (\<exists>x ir'. irand32 ir = Some (x, ir') \<and> irand_mod ir 0 = Some (0, ir')))"
proof (intro conjI impI)
  assume k: "k < 32"
  then show "irand_lim (2 ^ k) = 0"
    by (rule pow2_lim)
  have nz: "(2 :: 32 word) ^ k \<noteq> 0"
    using k by simp
  then show "irand_mod ir (2 ^ k - 1) = map_option (\<lambda>(x, ir'). (x mod 2 ^ k, ir')) (irand32 ir)"
    by (cases "irand32 ir") (auto simp: irand_mod_def pow2_lim [OF k] irand_mod_loop_zero)
next
  assume "unat (numleft ir) \<le> ISAAC_WORDS"
  from irand32_Some [OF this] obtain x ir' where 1: "irand32 ir = Some (x, ir')"
    by blast
  have "irand_lim 1 = 0"
    using pow2_lim [of 0] by simp
  then have "irand_mod ir 0 = Some (0, ir')"
    using 1 by (simp add: irand_mod_def irand_mod_loop_zero)
  with 1 show "\<exists>x ir'. irand32 ir = Some (x, ir') \<and> irand_mod ir 0 = Some (0, ir')"
    by blast
qed

theorem irand_mod_power_of_two_witness:
  "(3::nat) < 32 \<and>
   unat (numleft \<lparr>r = replicate 256 5, numleft = 3, s = zero_state\<rparr>) \<le> ISAAC_WORDS \<and>
   irand_lim (2 ^ 3) = 0 \<and>
   irand_mod \<lparr>r = replicate 256 5, numleft = 3, s = zero_state\<rparr> 7 =
     Some (5, \<lparr>r = replicate 256 5, numleft = 2, s = zero_state\<rparr>) \<and>
   irand_mod \<lparr>r = replicate 256 5, numleft = 3, s = zero_state\<rparr> 0 =
     Some (0, \<lparr>r = replicate 256 5, numleft = 2, s = zero_state\<rparr>)"
proof -
  have "irand32 \<lparr>r = replicate 256 5, numleft = 3, s = zero_state\<rparr> =
        Some (5, \<lparr>r = replicate 256 5, numleft = 2, s = zero_state\<rparr>)"
    by (simp add: irand32_def ISAAC_WORDS_def ISAAC_LOG_def)
  then show ?thesis
    using irand_mod_power_of_two [of 3 "\<lparr>r = replicate 256 5, numleft = 3, s = zero_state\<rparr>"]
    by (simp add: ISAAC_WORDS_def ISAAC_LOG_def)
qed

subsection \<open>The threshold and the sampler\<close>

lemma irand_mod_draw:
  assumes "irand32 ir = Some (x, ir')"
  shows "irand_mod ir n0 =
    (if irand_rejects n0 x then irand_mod ir' n0
     else Some (if n0 + 1 = 0 then x else x mod (n0 + 1), ir'))"
proof (cases "n0 + 1 = 0")
  case True
  with assms show ?thesis
    by (simp add: irand_mod_def irand_rejects_def)
next
  case False
  show ?thesis
  proof (cases "x < irand_lim (n0 + 1)")
    case True
    with False irand_mod_loop_reject [OF assms True] show ?thesis
      by (simp add: irand_mod_def irand_rejects_def Let_def)
  next
    case ge: False
    with False irand_mod_loop_accept [OF assms ge] show ?thesis
      by (simp add: irand_mod_def irand_rejects_def Let_def)
  qed
qed

lemma max_word_not_rejected: "\<not> irand_rejects n0 (- 1)"
  by (simp add: irand_rejects_def Let_def not_less)

text \<open>
  The words on which the sampler draws again, read off \<^verbatim>\<open>irand_mod\<close> itself: whenever
  the next word of the stream is \<open>x\<close>, the sampler gives what it gives on the stream after
  \<open>x\<close>. They are the words below the threshold.
\<close>

lemma irand_mod_draws_again_iff:
  "(\<forall>ir ir'. irand32 ir = Some (x, ir') \<longrightarrow> irand_mod ir n0 = irand_mod ir' n0)
   \<longleftrightarrow> irand_rejects n0 x"
proof
  assume "irand_rejects n0 x"
  then show "\<forall>ir ir'. irand32 ir = Some (x, ir') \<longrightarrow> irand_mod ir n0 = irand_mod ir' n0"
    by (simp add: irand_mod_draw)
next
  assume again: "\<forall>ir ir'. irand32 ir = Some (x, ir') \<longrightarrow> irand_mod ir n0 = irand_mod ir' n0"
  let ?ir = "\<lambda>k. \<lparr>r = (- 1) # x # replicate 254 0, numleft = k, s = zero_state\<rparr>"
  have 2: "irand32 (?ir 2) = Some (x, ?ir 1)"
    by (simp add: irand32_def ISAAC_WORDS_def ISAAC_LOG_def)
  have 1: "irand32 (?ir 1) = Some (- 1, ?ir 0)"
    by (simp add: irand32_def ISAAC_WORDS_def ISAAC_LOG_def)
  show "irand_rejects n0 x"
  proof (rule ccontr)
    assume n: "\<not> irand_rejects n0 x"
    from again 2 have "irand_mod (?ir 2) n0 = irand_mod (?ir 1) n0"
      by blast
    then show False
      unfolding irand_mod_draw [OF 2] irand_mod_draw [OF 1] using n max_word_not_rejected [of n0]
      by simp
  qed
qed

text \<open>
  C4. For every \<open>m\<close> from 1 to \<open>2\<^sup>3\<^sup>2\<close>, with the sampler called on \<open>n = m - 1\<close>: the value
  \<open>(2\<^sup>3\<^sup>2 - m) mod m\<close> is below \<open>m\<close>; for \<open>m < 2\<^sup>3\<^sup>2\<close> it is the threshold \<^verbatim>\<open>-n % n\<close> that
  \<^verbatim>\<open>irand_mod\<close> computes in 32-bit arithmetic on the incremented \<open>n = m\<close>, and that threshold
  is below \<open>m\<close>; it is the number of 32-bit words on which \<^verbatim>\<open>irand_mod\<close> draws again, that
  is, of the words \<open>x\<close> such that on every stream whose next word is \<open>x\<close> the sampler gives
  what it gives on the stream after \<open>x\<close>; and these are the words below the threshold: on
  a stream whose next word is \<open>x\<close>, \<^verbatim>\<open>irand_mod\<close> goes on with the stream after \<open>x\<close> when
  \<open>x\<close> is below the threshold, and otherwise returns \<open>x mod m\<close> (\<open>x\<close> itself for
  \<open>m = 2\<^sup>3\<^sup>2\<close>, where nothing is rejected) and the stream after \<open>x\<close>.
\<close>

theorem irand_lim_threshold:
  assumes "1 \<le> m" and "m \<le> 2 ^ 32"
  shows "(2 ^ 32 - m) mod m < m \<and>
         card {x. irand_rejects (of_nat (m - 1)) x} = (2 ^ 32 - m) mod m \<and>
         (m < 2 ^ 32 \<longrightarrow> unat (irand_lim (of_nat m)) = (2 ^ 32 - m) mod m
                           \<and> irand_lim (of_nat m) < of_nat m) \<and>
         card {x. \<forall>ir ir'. irand32 ir = Some (x, ir') \<longrightarrow>
                    irand_mod ir (of_nat (m - 1)) = irand_mod ir' (of_nat (m - 1))}
           = (2 ^ 32 - m) mod m \<and>
         (\<forall>x ir ir'. irand32 ir = Some (x, ir') \<longrightarrow>
            irand_mod ir (of_nat (m - 1)) =
              (if irand_rejects (of_nat (m - 1)) x then irand_mod ir' (of_nat (m - 1))
               else Some (if m = 2 ^ 32 then x else x mod of_nat m, ir')))"
proof -
  have "Suc (m - 1) = m"
    using assms by simp
  moreover have "(of_nat (m - 1) + 1 :: 32 word) = of_nat (Suc (m - 1))"
    by simp
  ultimately have n1: "(of_nat (m - 1) + 1 :: 32 word) = of_nat m"
    by simp
  have wrap: "(of_nat m :: 32 word) = 0 \<longleftrightarrow> m = 2 ^ 32"
  proof
    assume z: "(of_nat m :: 32 word) = 0"
    show "m = 2 ^ 32"
    proof (rule ccontr)
      assume "m \<noteq> 2 ^ 32"
      with assms have "m < 2 ^ 32"
        by simp
      then have "unat (of_nat m :: 32 word) = m"
        by (rule unat_of_nat32)
      with z assms show False
        by simp
    qed
  next
    assume "m = 2 ^ 32"
    then show "(of_nat m :: 32 word) = 0"
      by simp
  qed
  have link: "\<forall>x ir ir'. irand32 ir = Some (x, ir') \<longrightarrow>
            irand_mod ir (of_nat (m - 1)) =
              (if irand_rejects (of_nat (m - 1)) x then irand_mod ir' (of_nat (m - 1))
               else Some (if m = 2 ^ 32 then x else x mod of_nat m, ir'))"
  proof (intro allI impI)
    fix x ir ir' assume d: "irand32 ir = Some (x, ir')"
    show "irand_mod ir (of_nat (m - 1)) =
              (if irand_rejects (of_nat (m - 1)) x then irand_mod ir' (of_nat (m - 1))
               else Some (if m = 2 ^ 32 then x else x mod of_nat m, ir'))"
      unfolding irand_mod_draw [OF d, of "of_nat (m - 1)"] n1 wrap ..
  qed
  have same: "{x. \<forall>ir ir'. irand32 ir = Some (x, ir') \<longrightarrow>
                    irand_mod ir (of_nat (m - 1)) = irand_mod ir' (of_nat (m - 1))}
      = {x. irand_rejects (of_nat (m - 1)) x}"
    by (simp only: irand_mod_draws_again_iff)
  have old: "(2 ^ 32 - m) mod m < m \<and>
         card {x. irand_rejects (of_nat (m - 1)) x} = (2 ^ 32 - m) mod m \<and>
         (m < 2 ^ 32 \<longrightarrow> unat (irand_lim (of_nat m)) = (2 ^ 32 - m) mod m
                           \<and> irand_lim (of_nat m) < of_nat m)"
  proof (cases "m < 2 ^ 32")
    case True
    then have u: "unat (of_nat m :: 32 word) = m"
      by (rule unat_of_nat32)
    with assms have nz: "(of_nat m :: 32 word) \<noteq> 0"
      by (metis not_one_le_zero unat_0)
    have l: "unat (irand_lim (of_nat m)) = (2 ^ 32 - m) mod m"
      using irand_lim_unat [OF nz] u by simp
    have "{x. irand_rejects (of_nat (m - 1)) x} = {x. x < irand_lim (of_nat m)}"
      unfolding irand_rejects_def n1 using nz by (simp add: Let_def)
    then have "card {x. irand_rejects (of_nat (m - 1)) x} = (2 ^ 32 - m) mod m"
      using l by (simp add: card_below)
    with l assms irand_lim_less [OF nz] True show ?thesis
      by simp
  next
    case False
    with assms have m: "m = 2 ^ 32"
      by simp
    have "(of_nat m :: 32 word) = 0"
      unfolding m by simp
    then have "{x. irand_rejects (of_nat (m - 1)) x} = {}"
      unfolding irand_rejects_def n1 by (simp add: Let_def)
    then show ?thesis
      using m by simp
  qed
  from old link show ?thesis
    unfolding same by blast
qed

theorem irand_lim_threshold_witness:
  "(1::nat) \<le> 10 \<and> (10::nat) \<le> 2 ^ 32 \<and> (10::nat) < 2 ^ 32 \<and>
   card {x. irand_rejects 9 x} = 6 \<and> unat (irand_lim 10) = 6 \<and> irand_lim 10 < 10 \<and>
   irand32 \<lparr>r = 25 # 3 # replicate 254 0, numleft = 2, s = zero_state\<rparr> =
     Some (3, \<lparr>r = 25 # 3 # replicate 254 0, numleft = 1, s = zero_state\<rparr>) \<and>
   irand_rejects 9 3 \<and>
   irand_mod \<lparr>r = 25 # 3 # replicate 254 0, numleft = 2, s = zero_state\<rparr> 9 =
     irand_mod \<lparr>r = 25 # 3 # replicate 254 0, numleft = 1, s = zero_state\<rparr> 9"
proof -
  let ?ir = "\<lambda>k. \<lparr>r = 25 # 3 # replicate 254 0, numleft = k, s = zero_state\<rparr>"
  note t = irand_lim_threshold [of 10]
  have h: "(1::nat) \<le> 10" "(10::nat) \<le> 2 ^ 32" "(10::nat) < 2 ^ 32"
    by simp_all
  have d: "irand32 (?ir 2) = Some (3, ?ir 1)"
    by (simp add: irand32_def ISAAC_WORDS_def ISAAC_LOG_def)
  have rj: "irand_rejects 9 3"
    by (simp add: irand_rejects_def irand_lim_def)
  from t [OF h(1,2)] have
    "\<forall>x ir ir'. irand32 ir = Some (x, ir') \<longrightarrow>
       irand_mod ir (of_nat (10 - 1)) =
         (if irand_rejects (of_nat (10 - 1)) x then irand_mod ir' (of_nat (10 - 1))
          else Some (if (10::nat) = 2 ^ 32 then x else x mod of_nat 10, ir'))"
    by (elim conjE)
  from this [rule_format, OF d] rj have l: "irand_mod (?ir 2) 9 = irand_mod (?ir 1) 9"
    by simp
  from t [OF h(1,2)] h have "card {x. irand_rejects 9 x} = 6 \<and> unat (irand_lim 10) = 6 \<and>
      irand_lim 10 < 10"
    by simp
  with h d rj l show ?thesis
    by (intro conjI) simp_all
qed

subsection \<open>The refill\<close>

lemma upt_4_from: "[m..<m + 4] = [m, m + 1, m + 2, m + 3]"
  by (simp add: upt_conv_Cons)

lemma refill_shift_cycle: "m mod 4 = 0 \<Longrightarrow> refill_shift m = push_bit 13 \<and> refill_shift (m + 1) = drop_bit 6 \<and>
    refill_shift (m + 2) = push_bit 2 \<and> refill_shift (m + 3) = drop_bit 16"
proof -
  assume "m mod 4 = 0"
  then have "(m + 1) mod 4 = 1" "(m + 2) mod 4 = 2" "(m + 3) mod 4 = 3"
    by presburger+
  with \<open>m mod 4 = 0\<close> show ?thesis
    by (simp add: refill_shift_def)
qed

lemma refill_body_fold:
  assumes "m mod 4 = 0"
  shows "refill_body off m f = fold (\<lambda>i. isaac_step (refill_shift i) off i) [m..<m + 4] f"
  unfolding upt_4_from using refill_shift_cycle [OF assms] by (simp add: refill_body_def Let_def)

lemma upt_split4: "m + 4 < bound \<Longrightarrow> [m..<bound] = [m..<m + 4] @ [m + 4..<bound]"
  using upt_add_eq_append [of m "m + 4" "bound - (m + 4)"] by simp

lemma refill_loop_fold:
  "m mod 4 = 0 \<Longrightarrow> bound mod 4 = 0 \<Longrightarrow> m < bound \<Longrightarrow>
   refill_loop off bound m f = (bound, fold (\<lambda>i. isaac_step (refill_shift i) off i) [m..<bound] f)"
proof (induction off bound m f rule: refill_loop.induct)
  case (1 off bound m f)
  show ?case
  proof (cases "m + 4 < bound")
    case True
    have m4: "(m + 4) mod 4 = 0" using "1.prems"(1) by simp
    have "refill_loop off bound (m + 4) (refill_body off m f) =
      (bound, fold (\<lambda>i. isaac_step (refill_shift i) off i) [m + 4..<bound] (refill_body off m f))"
      using "1.IH" [OF refl refl True m4 "1.prems"(2) True] .
    then show ?thesis
      using True
      by (subst refill_loop.simps)
        (simp add: Let_def refill_body_fold [OF "1.prems"(1)] upt_split4 [OF True] del: upt_Suc)
  next
    case False
    have "bound = m + 4" using False "1.prems" by presburger
    then show ?thesis
      by (subst refill_loop.simps) (simp add: Let_def refill_body_fold [OF "1.prems"(1)])
  qed
qed

text \<open>
  In the first loop the partner word of step \<open>i\<close> is \<^verbatim>\<open>m[128]\<close> with \<open>m\<close> at word \<open>i < 128\<close>,
  in the second \<^verbatim>\<open>m[-128]\<close> with \<open>m\<close> at word \<open>i \<ge> 128\<close>: both are word
  \<open>(i + 128) mod 256\<close>, and the step of the code is the step of the specification.
\<close>

lemma isaac_step_first_half:
  "i < 128 \<Longrightarrow> isaac_step (refill_shift i) 128 i f = refill_step i f"
  by (simp add: isaac_step_def refill_step_def ISAAC_LOG_def nat_add_distrib Let_def)

lemma isaac_step_second_half:
  assumes "128 \<le> i" and "i < 256"
  shows "isaac_step (refill_shift i) (- 128) i f = refill_step i f"
proof -
  have "nat (int i + - 128) = i - 128"
    using assms by simp
  moreover have "(i + 128) mod 256 = i - 128"
    using assms by (simp add: mod_if)
  ultimately show ?thesis
    by (simp add: isaac_step_def refill_step_def ISAAC_LOG_def Let_def)
qed

lemma refill_step_lengths:
  "length (s_mm (refill_step i f)) = length (s_mm f) \<and>
   length (r_out (refill_step i f)) = length (r_out f)"
  by (simp add: refill_step_def Let_def)

lemma refill_upto_0: "refill_upto 0 f = f"
  by (simp add: refill_upto_def)

lemma refill_upto_Suc:
  "refill_upto (Suc k) f = refill_step k (refill_upto k f)"
  by (simp add: refill_upto_def)

lemma refill_upto_lengths:
  "length (s_mm (refill_upto k f)) = length (s_mm f) \<and>
   length (r_out (refill_upto k f)) = length (r_out f)"
  by (induction k) (simp_all add: refill_upto_0 refill_upto_Suc refill_step_lengths)

lemma fold_off_first:
  "fold (\<lambda>i. isaac_step (refill_shift i) 128 i) [0..<128] f =
   fold refill_step [0..<128] f"
  by (rule fold_cong) (simp_all add: isaac_step_first_half fun_eq_iff del: upt_rec_numeral)

lemma fold_off_second:
  "fold (\<lambda>i. isaac_step (refill_shift i) (- 128) i) [128..<256] f =
   fold refill_step [128..<256] f"
  by (rule fold_cong) (simp_all add: isaac_step_second_half fun_eq_iff del: upt_rec_numeral)

lemma upt_halves: "[0..<256] = [0..<128] @ [128..<256]"
  using upt_add_eq_append [of 0 128 128] by simp

lemma isaac_refill_upto:
  "isaac_refill st out =
     (st\<lparr>mm := s_mm (refill_upto 256 (refill_start st out)),
         a := a_cache (refill_upto 256 (refill_start st out)),
         b := b_cache (refill_upto 256 (refill_start st out)),
         c := c st + 1\<rparr>,
      r_out (refill_upto 256 (refill_start st out)))"
proof -
  have 1: "refill_loop 128 128 0 f = (128, fold (\<lambda>i. isaac_step (refill_shift i) 128 i) [0..<128] f)" for f
    by (rule refill_loop_fold) simp_all
  have 2: "refill_loop (- 128) 256 128 f =
      (256, fold (\<lambda>i. isaac_step (refill_shift i) (- 128) i) [128..<256] f)" for f
    by (rule refill_loop_fold) simp_all
  have 3: "refill_upto 256 f =
      fold (\<lambda>i. isaac_step (refill_shift i) (- 128) i) [128..<256]
        (fold (\<lambda>i. isaac_step (refill_shift i) 128 i) [0..<128] f)" for f
    unfolding refill_upto_def upt_halves fold_append fold_off_first fold_off_second by simp
  show ?thesis
    unfolding 3
    by (simp add: isaac_refill_def ISAAC_WORDS_def ISAAC_LOG_def Let_def 1 2 refill_start_def)
qed

lemma refill_step_r_out:
  "r_out (refill_step i f) = (r_out f)[i := b_cache (refill_step i f)]"
  by (simp add: refill_step_def Let_def)

lemma refill_step_s_mm_other:
  "j \<noteq> i \<Longrightarrow> s_mm (refill_step i f) ! j = s_mm f ! j"
  by (simp add: refill_step_def Let_def)

lemma refill_upto_r_out:
  "i < k \<Longrightarrow> i < length (r_out f) \<Longrightarrow>
   r_out (refill_upto k f) ! i = b_cache (refill_upto (Suc i) f)"
proof (induction k)
  case 0
  then show ?case by simp
next
  case (Suc k)
  show ?case
  proof (cases "i = k")
    case True
    with Suc.prems(2) show ?thesis
      by (subst refill_upto_Suc, subst refill_step_r_out)
        (simp add: refill_upto_lengths flip: refill_upto_Suc)
  next
    case False
    with Suc.prems have "i < k" by simp
    from Suc.IH [OF this Suc.prems(2)] False show ?thesis
      by (subst refill_upto_Suc, subst refill_step_r_out) simp
  qed
qed

lemma refill_upto_s_mm:
  "i < k \<Longrightarrow> s_mm (refill_upto k f) ! i = s_mm (refill_upto (Suc i) f) ! i"
proof (induction k)
  case 0
  then show ?case by simp
next
  case (Suc k)
  show ?case
  proof (cases "i = k")
    case True
    then show ?thesis by simp
  next
    case False
    with Suc.prems have "i < k" by simp
    from Suc.IH [OF this] False show ?thesis
      by (subst refill_upto_Suc) (simp add: refill_step_s_mm_other)
  qed
qed

lemma refill_step_core:
  "a_cache f = a_cache g \<Longrightarrow> b_cache f = b_cache g \<Longrightarrow> s_mm f = s_mm g \<Longrightarrow>
   a_cache (refill_step i f) = a_cache (refill_step i g) \<and>
   b_cache (refill_step i f) = b_cache (refill_step i g) \<and>
   s_mm (refill_step i f) = s_mm (refill_step i g)"
  by (simp add: refill_step_def Let_def)

lemma refill_upto_core:
  "a_cache f = a_cache g \<Longrightarrow> b_cache f = b_cache g \<Longrightarrow> s_mm f = s_mm g \<Longrightarrow>
   a_cache (refill_upto k f) = a_cache (refill_upto k g) \<and>
   b_cache (refill_upto k f) = b_cache (refill_upto k g) \<and>
   s_mm (refill_upto k f) = s_mm (refill_upto k g)"
proof (induction k)
  case 0
  then show ?case by (simp add: refill_upto_0)
next
  case (Suc k)
  from Suc.IH [OF Suc.prems] show ?case
    unfolding refill_upto_Suc by (intro refill_step_core) simp_all
qed

lemma refill_upto_out_eq:
  assumes "a_cache f = a_cache g" "b_cache f = b_cache g" "s_mm f = s_mm g"
    and "length (r_out f) = k" "length (r_out g) = k"
  shows "r_out (refill_upto k f) = r_out (refill_upto k g)"
proof (rule nth_equalityI)
  show "length (r_out (refill_upto k f)) = length (r_out (refill_upto k g))"
    using assms by (simp add: refill_upto_lengths)
next
  fix i assume "i < length (r_out (refill_upto k f))"
  then have i: "i < k" using assms by (simp add: refill_upto_lengths)
  with assms have "r_out (refill_upto k f) ! i = b_cache (refill_upto (Suc i) f)"
    "r_out (refill_upto k g) ! i = b_cache (refill_upto (Suc i) g)"
    by (simp_all add: refill_upto_r_out)
  with refill_upto_core [OF assms(1-3), of "Suc i"]
  show "r_out (refill_upto k f) ! i = r_out (refill_upto k g) ! i"
    by simp
qed

lemma refill_step_writes:
  assumes "i < length (s_mm g)"
  shows "a_cache (refill_step i g) =
           (a_cache g XOR refill_shift i (a_cache g)) + s_mm g ! ((i + 128) mod 256) \<and>
         s_mm (refill_step i g) ! i =
           ind (s_mm g) (s_mm g ! i) + a_cache (refill_step i g) + b_cache g \<and>
         b_cache (refill_step i g) =
           ind ((s_mm g)[i := s_mm (refill_step i g) ! i])
             (drop_bit 8 (s_mm (refill_step i g) ! i)) + s_mm g ! i"
  using assms by (simp add: refill_step_def Let_def)

text \<open>
  C3. On a generator whose \<^verbatim>\<open>mm\<close> has its 256 words and an output array of 256 words,
  \<^verbatim>\<open>isaac_refill\<close> returns 256 output words and a state with 256 words in \<^verbatim>\<open>mm\<close>; \<^verbatim>\<open>c\<close> is
  incremented by one, modulo \<open>2\<^sup>3\<^sup>2\<close>, and \<^verbatim>\<open>iv\<close> is untouched; the running \<^verbatim>\<open>b\<close> starts at
  the stored \<^verbatim>\<open>b\<close> plus the incremented \<^verbatim>\<open>c\<close>; the new \<^verbatim>\<open>a\<close> and \<^verbatim>\<open>b\<close> are those after the
  256 central steps; for every \<open>i\<close> below 256, output word \<open>i\<close> is the \<^verbatim>\<open>b\<close> that step \<open>i\<close>
  computes and word \<open>i\<close> of \<^verbatim>\<open>mm\<close> is the word step \<open>i\<close> writes there, so all 256 words of
  each array are written. Step \<open>i\<close>, on the variables \<open>g\<close> the steps before it leave, sets
  \<^verbatim>\<open>a\<close> to \<open>(a ^ f(a)) + m[(i + 128) mod 256]\<close>, writes \<open>y = ind(m, m[i]) + a + b\<close> with that
  new \<^verbatim>\<open>a\<close> to word \<open>i\<close> of \<^verbatim>\<open>mm\<close>, where it stays, and emits
  \<open>ind(m[i := y], y >> 8) + m[i]\<close> as output word \<open>i\<close>. The outputs and the new \<^verbatim>\<open>mm\<close>, \<^verbatim>\<open>a\<close>, \<^verbatim>\<open>b\<close>, \<^verbatim>\<open>c\<close> are the
  same for any generator with the same \<^verbatim>\<open>mm\<close>, \<^verbatim>\<open>a\<close>, \<^verbatim>\<open>b\<close>, \<^verbatim>\<open>c\<close> and any output array:
  they depend on nothing else.
\<close>

theorem isaac_refill_block:
  assumes "length (mm st) = ISAAC_WORDS" and "length out = ISAAC_WORDS"
  shows
   "length (snd (isaac_refill st out)) = ISAAC_WORDS \<and>
    length (mm (fst (isaac_refill st out))) = ISAAC_WORDS \<and>
    c (fst (isaac_refill st out)) = c st + 1 \<and>
    iv (fst (isaac_refill st out)) = iv st \<and>
    b_cache (refill_start st out) = b st + c (fst (isaac_refill st out)) \<and>
    a (fst (isaac_refill st out)) = a_cache (refill_upto ISAAC_WORDS (refill_start st out)) \<and>
    b (fst (isaac_refill st out)) = b_cache (refill_upto ISAAC_WORDS (refill_start st out)) \<and>
    (\<forall>i<ISAAC_WORDS.
       snd (isaac_refill st out) ! i = b_cache (refill_upto (Suc i) (refill_start st out)) \<and>
       mm (fst (isaac_refill st out)) ! i = s_mm (refill_upto (Suc i) (refill_start st out)) ! i) \<and>
    (\<forall>i<ISAAC_WORDS.
       let g = refill_upto i (refill_start st out);
           a' = (a_cache g XOR refill_shift i (a_cache g)) + s_mm g ! ((i + 128) mod 256);
           y = ind (s_mm g) (s_mm g ! i) + a' + b_cache g
       in a_cache (refill_upto (Suc i) (refill_start st out)) = a' \<and>
          mm (fst (isaac_refill st out)) ! i = y \<and>
          snd (isaac_refill st out) ! i = ind ((s_mm g)[i := y]) (drop_bit 8 y) + s_mm g ! i) \<and>
    (\<forall>st2 out2.
       mm st2 = mm st \<and> a st2 = a st \<and> b st2 = b st \<and> c st2 = c st \<and>
       length out2 = ISAAC_WORDS \<longrightarrow>
         snd (isaac_refill st2 out2) = snd (isaac_refill st out) \<and>
         mm (fst (isaac_refill st2 out2)) = mm (fst (isaac_refill st out)) \<and>
         a (fst (isaac_refill st2 out2)) = a (fst (isaac_refill st out)) \<and>
         b (fst (isaac_refill st2 out2)) = b (fst (isaac_refill st out)) \<and>
         c (fst (isaac_refill st2 out2)) = c (fst (isaac_refill st out)))"
proof -
  have w: "ISAAC_WORDS = 256"
    by (simp add: ISAAC_WORDS_def ISAAC_LOG_def)
  let ?f = "refill_start st out"
  have len: "length (r_out ?f) = 256" "length (s_mm ?f) = 256"
    using assms by (simp_all add: refill_start_def w)
  have written: "\<forall>i<ISAAC_WORDS.
       snd (isaac_refill st out) ! i = b_cache (refill_upto (Suc i) ?f) \<and>
       mm (fst (isaac_refill st out)) ! i = s_mm (refill_upto (Suc i) ?f) ! i"
  proof (intro allI impI)
    fix i assume "i < ISAAC_WORDS"
    then have i: "i < 256"
      by (simp add: w)
    from i refill_upto_r_out [OF i, of ?f] refill_upto_s_mm [OF i, of ?f] len
    show "snd (isaac_refill st out) ! i = b_cache (refill_upto (Suc i) ?f) \<and>
       mm (fst (isaac_refill st out)) ! i = s_mm (refill_upto (Suc i) ?f) ! i"
      by (simp add: isaac_refill_upto)
  qed
  have steps: "\<forall>i<ISAAC_WORDS.
       let g = refill_upto i ?f;
           a' = (a_cache g XOR refill_shift i (a_cache g)) + s_mm g ! ((i + 128) mod 256);
           y = ind (s_mm g) (s_mm g ! i) + a' + b_cache g
       in a_cache (refill_upto (Suc i) ?f) = a' \<and>
          mm (fst (isaac_refill st out)) ! i = y \<and>
          snd (isaac_refill st out) ! i = ind ((s_mm g)[i := y]) (drop_bit 8 y) + s_mm g ! i"
  proof (intro allI impI)
    fix i assume i: "i < ISAAC_WORDS"
    then have "i < length (s_mm (refill_upto i ?f))"
      using len by (simp add: refill_upto_lengths w)
    from refill_step_writes [OF this] written [rule_format, OF i]
    show "let g = refill_upto i ?f;
           a' = (a_cache g XOR refill_shift i (a_cache g)) + s_mm g ! ((i + 128) mod 256);
           y = ind (s_mm g) (s_mm g ! i) + a' + b_cache g
       in a_cache (refill_upto (Suc i) ?f) = a' \<and>
          mm (fst (isaac_refill st out)) ! i = y \<and>
          snd (isaac_refill st out) ! i = ind ((s_mm g)[i := y]) (drop_bit 8 y) + s_mm g ! i"
      unfolding Let_def refill_upto_Suc by simp
  qed
  have det: "snd (isaac_refill st2 out2) = snd (isaac_refill st out) \<and>
         mm (fst (isaac_refill st2 out2)) = mm (fst (isaac_refill st out)) \<and>
         a (fst (isaac_refill st2 out2)) = a (fst (isaac_refill st out)) \<and>
         b (fst (isaac_refill st2 out2)) = b (fst (isaac_refill st out)) \<and>
         c (fst (isaac_refill st2 out2)) = c (fst (isaac_refill st out))"
    if h: "mm st2 = mm st \<and> a st2 = a st \<and> b st2 = b st \<and> c st2 = c st \<and>
       length out2 = ISAAC_WORDS" for st2 out2
  proof -
    let ?g = "refill_start st2 out2"
    have e: "a_cache ?g = a_cache ?f" "b_cache ?g = b_cache ?f" "s_mm ?g = s_mm ?f"
      using h by (simp_all add: refill_start_def)
    have l: "length (r_out ?g) = 256"
      using h by (simp add: refill_start_def w)
    from refill_upto_core [OF e, of 256] refill_upto_out_eq [OF e l len(1)] h
    show ?thesis
      by (simp add: isaac_refill_upto)
  qed
  have rest: "length (snd (isaac_refill st out)) = ISAAC_WORDS \<and>
    length (mm (fst (isaac_refill st out))) = ISAAC_WORDS \<and>
    c (fst (isaac_refill st out)) = c st + 1 \<and>
    iv (fst (isaac_refill st out)) = iv st \<and>
    b_cache (refill_start st out) = b st + c (fst (isaac_refill st out)) \<and>
    a (fst (isaac_refill st out)) = a_cache (refill_upto ISAAC_WORDS (refill_start st out)) \<and>
    b (fst (isaac_refill st out)) = b_cache (refill_upto ISAAC_WORDS (refill_start st out))"
    using len by (simp add: isaac_refill_upto refill_upto_lengths w) (simp add: refill_start_def)
  from rest written steps det show ?thesis
    by blast
qed

theorem isaac_refill_block_witness:
  "length (mm zero_state) = ISAAC_WORDS \<and> length ramp = ISAAC_WORDS \<and>
   length (snd (isaac_refill zero_state ramp)) = ISAAC_WORDS \<and>
   c (fst (isaac_refill zero_state ramp)) = 1 \<and>
   snd (isaac_refill (zero_state\<lparr>iv := iv_init\<rparr>) (replicate 256 0)) =
     snd (isaac_refill zero_state ramp)"
proof -
  have l: "length (mm zero_state) = ISAAC_WORDS" "length ramp = ISAAC_WORDS"
    by (simp_all add: zero_state_def ramp_def ISAAC_WORDS_def ISAAC_LOG_def)
  note t = isaac_refill_block [OF l]
  from t have 1: "length (snd (isaac_refill zero_state ramp)) = ISAAC_WORDS"
    by (elim conjE)
  from t have "c (fst (isaac_refill zero_state ramp)) = c zero_state + 1"
    by (elim conjE)
  then have 2: "c (fst (isaac_refill zero_state ramp)) = 1"
    by (simp add: zero_state_def)
  from t have d: "\<forall>st2 out2.
       mm st2 = mm zero_state \<and> a st2 = a zero_state \<and> b st2 = b zero_state \<and>
       c st2 = c zero_state \<and> length out2 = ISAAC_WORDS \<longrightarrow>
         snd (isaac_refill st2 out2) = snd (isaac_refill zero_state ramp) \<and>
         mm (fst (isaac_refill st2 out2)) = mm (fst (isaac_refill zero_state ramp)) \<and>
         a (fst (isaac_refill st2 out2)) = a (fst (isaac_refill zero_state ramp)) \<and>
         b (fst (isaac_refill st2 out2)) = b (fst (isaac_refill zero_state ramp)) \<and>
         c (fst (isaac_refill st2 out2)) = c (fst (isaac_refill zero_state ramp))"
    by (elim conjE)
  have "mm (zero_state\<lparr>iv := iv_init\<rparr>) = mm zero_state \<and>
     a (zero_state\<lparr>iv := iv_init\<rparr>) = a zero_state \<and>
     b (zero_state\<lparr>iv := iv_init\<rparr>) = b zero_state \<and>
     c (zero_state\<lparr>iv := iv_init\<rparr>) = c zero_state \<and>
     length (replicate 256 (0 :: 32 word)) = ISAAC_WORDS"
    by (simp add: ISAAC_WORDS_def ISAAC_LOG_def)
  with d have 3: "snd (isaac_refill (zero_state\<lparr>iv := iv_init\<rparr>) (replicate 256 0)) =
     snd (isaac_refill zero_state ramp)"
    by blast
  from l 1 2 3 show ?thesis
    by (intro conjI)
qed

subsection \<open>Seeding with several buffers\<close>

lemma seed_start_zero:
  "isaac_seed_start zero_state = \<lparr>mm = replicate 256 0, iv = iv_init, a = 0, b = 0, c = 0\<rparr>"
  by (simp add: isaac_seed_start_def zero_state_def ISAAC_WORDS_def ISAAC_LOG_def seed_start_iv)

lemma isaac_seed_data_fits:
  "unat (c st) \<le> ISAAC_BYTES \<Longrightarrow> length buf \<le> ISAAC_BYTES - unat (c st) \<Longrightarrow>
   isaac_seed_data en st buf =
     Some (st\<lparr>mm := xor_buf en (mm st) (unat (c st)) buf, c := of_nat (length buf)\<rparr>)"
  by (simp add: isaac_seed_data_def Let_def
      seed_blocks.simps [of en "ISAAC_BYTES - unat (c st)" st buf])

lemma bytes_1024: "ISAAC_BYTES = 1024"
  by (simp add: ISAAC_BYTES_def ISAAC_WORDS_def ISAAC_LOG_def sizeof_uint32_def)

lemma xor_buf_append:
  "xor_buf en m p (xs @ ys) = xor_buf en (xor_buf en m p xs) (p + length xs) ys"
  by (induction xs arbitrary: m p) simp_all

lemma isaac_mix_body_cursor:
  "isaac_mix_body mm i (regs, st\<lparr>c := k\<rparr>) =
   (fst (isaac_mix_body mm i (regs, st)), (snd (isaac_mix_body mm i (regs, st)))\<lparr>c := k\<rparr>)"
  by (simp add: isaac_mix_body_def Let_def split: prod.splits)

lemma isaac_mix_loop_cursor:
  "isaac_mix_loop mm i (regs, st\<lparr>c := k\<rparr>) =
   (fst (isaac_mix_loop mm i (regs, st)), (snd (isaac_mix_loop mm i (regs, st)))\<lparr>c := k\<rparr>)"
proof (induction "mm :: isaac_state \<Rightarrow> 32 word list" i "(regs, st)" arbitrary: regs st
    rule: isaac_mix_loop.induct)
  case (1 i)
  show ?case
  proof (cases "i < ISAAC_WORDS")
    case True
    obtain regs1 st1 where b: "isaac_mix_body mm i (regs, st) = (regs1, st1)"
      by (cases "isaac_mix_body mm i (regs, st)")
    from "1.hyps" [OF True b] True b show ?thesis
      by (subst (1 2 3) isaac_mix_loop.simps) (simp add: isaac_mix_body_cursor)
  next
    case False
    then show ?thesis
      by (subst (1 2 3) isaac_mix_loop.simps) simp
  qed
qed

lemma isaac_mix_cursor: "isaac_mix mm (st\<lparr>c := k\<rparr>) = (isaac_mix mm st)\<lparr>c := k\<rparr>"
  by (simp add: isaac_mix_def Let_def isaac_mix_loop_cursor split: prod.splits)

lemma isaac_seed_data_split_overflow:
  assumes "c st = 0" and "length xs \<le> ISAAC_BYTES" and "ISAAC_BYTES < length xs + length ys"
  shows "seed_pieces en st [xs, ys] = isaac_seed_data en st (xs @ ys)"
proof -
  let ?n = "ISAAC_BYTES - length xs"
  let ?st1 = "st\<lparr>mm := xor_buf en (mm st) 0 xs, c := of_nat (length xs)\<rparr>"
  have lx: "length xs < 2 ^ 32"
    using assms(2) by (simp add: bytes_1024)
  then have u: "unat (of_nat (length xs) :: 32 word) = length xs"
    by (simp add: unat_of_nat)
  have 1: "isaac_seed_data en st xs = Some ?st1"
    using assms by (simp add: isaac_seed_data_fits)
  have t: "take ISAAC_BYTES (xs @ ys) = xs @ take ?n ys" "drop ISAAC_BYTES (xs @ ys) = drop ?n ys"
    using assms(2) by simp_all
  have m: "(isaac_mix mm (?st1\<lparr>mm := xor_buf en (mm ?st1) (length xs) (take ?n ys)\<rparr>))\<lparr>c := 0\<rparr> =
        (isaac_mix mm (st\<lparr>mm := xor_buf en (mm st) 0 (take ISAAC_BYTES (xs @ ys))\<rparr>))\<lparr>c := 0\<rparr>"
  proof -
    have "?st1\<lparr>mm := xor_buf en (mm ?st1) (length xs) (take ?n ys)\<rparr> =
          (st\<lparr>mm := xor_buf en (mm st) 0 (take ISAAC_BYTES (xs @ ys))\<rparr>)\<lparr>c := of_nat (length xs)\<rparr>"
      using assms(2) by (simp add: xor_buf_append min_def)
    then show ?thesis
      by (simp only: isaac_mix_cursor) simp
  qed
  have lt: "?n < length ys"
    using assms(2,3) by linarith
  have b2: "seed_blocks en ?n ?st1 ys =
      seed_blocks en ISAAC_BYTES
        ((isaac_mix mm (st\<lparr>mm := xor_buf en (mm st) 0 (take ISAAC_BYTES (xs @ ys))\<rparr>))\<lparr>c := 0\<rparr>)
        (drop ?n ys)"
    using lt m by (subst seed_blocks.simps) (simp add: Let_def u)
  have b1: "seed_blocks en ISAAC_BYTES st (xs @ ys) =
      seed_blocks en ISAAC_BYTES
        ((isaac_mix mm (st\<lparr>mm := xor_buf en (mm st) 0 (take ISAAC_BYTES (xs @ ys))\<rparr>))\<lparr>c := 0\<rparr>)
        (drop ?n ys)"
    using assms by (subst seed_blocks.simps) (simp add: Let_def t)
  have "isaac_seed_data en ?st1 ys = isaac_seed_data en st (xs @ ys)"
    using assms(1,2) by (simp add: isaac_seed_data_def u b1 b2)
  with 1 show ?thesis
    by simp
qed

text \<open>
  The example of one 2000-byte call against two 1000-byte calls, from a state with the
  cursor at 0: the second piece overflows the block.
\<close>

lemma isaac_seed_data_split_2000:
  "c st = 0 \<Longrightarrow> length xs = 1000 \<Longrightarrow> length ys = 1000 \<Longrightarrow>
   seed_pieces en st [xs, ys] = isaac_seed_data en st (xs @ ys)"
  by (rule isaac_seed_data_split_overflow) (simp_all add: bytes_1024)

text \<open>
  C1 on the code. A call that does not overflow the block ends with \<^verbatim>\<open>s->c = size\<close>, the
  size of its own buffer, whatever the cursor was at entry; the cursor is not advanced
  from where it stood. From the state \<^verbatim>\<open>isaac_seed_start\<close> leaves, on a little-endian
  machine: the bytes 1, 2 in one call leave the cursor at 2, in two calls of one byte
  each at 1, with the same \<^verbatim>\<open>mm\<close>; the bytes 1, 2, 4 in one call give word 0 the value
  \<open>0x040201\<close> and the cursor 3, in three calls of one byte each the second and third
  byte are both combined into byte 1, word 0 is \<open>0x0601\<close> and the cursor is 1.
\<close>

theorem isaac_seed_data_split_differs:
  "isaac_seed_data LittleEndian (isaac_seed_start zero_state) [1, 2] =
     Some \<lparr>mm = (replicate 256 0)[0 := 0x0201], iv = iv_init, a = 0, b = 0, c = 2\<rparr> \<and>
   seed_pieces LittleEndian (isaac_seed_start zero_state) [[1], [2]] =
     Some \<lparr>mm = (replicate 256 0)[0 := 0x0201], iv = iv_init, a = 0, b = 0, c = 1\<rparr> \<and>
   isaac_seed_data LittleEndian (isaac_seed_start zero_state) [1, 2, 4] =
     Some \<lparr>mm = (replicate 256 0)[0 := 0x040201], iv = iv_init, a = 0, b = 0, c = 3\<rparr> \<and>
   seed_pieces LittleEndian (isaac_seed_start zero_state) [[1], [2], [4]] =
     Some \<lparr>mm = (replicate 256 0)[0 := 0x0601], iv = iv_init, a = 0, b = 0, c = 1\<rparr>"
  by (simp add: seed_start_zero isaac_seed_data_fits bytes_1024 xor_byte_def byte_lane_def
      sizeof_uint32_def)

end
